theory Spec2Isabelle
  imports Main
begin

section \<open>Promises of gostream: the data model\<close>

text \<open>
  The package \<^verbatim>\<open>promise\<close> (src/promise/promise.go) is embedded over an explicit
  world: a heap of \<^verbatim>\<open>aPromise\<close> objects, the local variables captured by the
  closures of \<^verbatim>\<open>All\<close> and \<^verbatim>\<open>Any\<close>, the channel pairs of \<^verbatim>\<open>Channel\<close>, and the
  pool of goroutines started by \<^verbatim>\<open>go han(...)\<close> that have not run yet.

  Closures are defunctionalised: a \<^verbatim>\<open>Resolver\<close> or \<^verbatim>\<open>Rejector\<close> is either a
  handler supplied by the caller, or one of the closures the package builds itself.
  A handler of the caller is a function from its argument to what the call does:
  it returns a value, it panics with a value, or it never returns.  One call of a
  closure and one run of a continuation are single transitions of the world (the
  source takes no lock; interleavings inside one call are not part of this model).
  The order in which started goroutines run is not fixed: any of them may run next.
\<close>

type_synonym addr = nat

text \<open>Values of Go's \<^verbatim>\<open>error\<close> interface; the nil interface is \<open>None\<close> of
  \<open>error option\<close>.  \<open>MultiPromiseError\<close> keeps the fields of the source struct.\<close>

datatype error =
    PromiseError string
  | ErrorString string
  | RuntimeError string
  | MultiPromiseError "addr list" string

text \<open>Values of \<^verbatim>\<open>Unknown\<close> (\<^verbatim>\<open>interface{}\<close>).  \<open>VProm a\<close> is a \<^verbatim>\<open>*aPromise\<close>, the
  only type of the package with a \<^verbatim>\<open>Then\<close> method; \<open>VList\<close> is a \<^verbatim>\<open>[]Unknown\<close>.\<close>

datatype val =
    VNil
  | VInt int
  | VStr string
  | VErr error
  | VProm addr
  | VList "val list"

text \<open>What a call of a \<^verbatim>\<open>Resolver\<close> or \<^verbatim>\<open>Rejector\<close> does.\<close>

datatype hres = Return val | Panic val | Blocks

datatype resolver =
    UserResolver "val \<Rightarrow> hres"
  | ResolveOf addr
  | AllResolver nat nat addr
  | ChanResolver nat

datatype rejector =
    UserRejector "error option \<Rightarrow> hres"
  | RejectOf addr
  | AnyRejector nat addr
  | ChanRejector nat

text \<open>The closure \<^verbatim>\<open>handle\<close> built by \<^verbatim>\<open>Then\<close>: it captures \<^verbatim>\<open>onsuccess\<close>,
  \<^verbatim>\<open>onfail\<close> (nil is \<open>None\<close>) and the \<^verbatim>\<open>resolve\<close>/\<^verbatim>\<open>reject\<close> pair of the
  derived promise, given by its address.\<close>

datatype callback = Handle "resolver option" "rejector option" addr

definition PromisePending :: nat where "PromisePending = 0"
definition PromiseResolved :: nat where "PromiseResolved = 1"
definition PromiseRejected :: nat where "PromiseRejected = 2"

definition PromiseStatusName :: "string list" where
  "PromiseStatusName = [''Pending'', ''Resolved'', ''Rejected'']"

record aPromise =
  status :: nat
  result :: val
  reject :: "error option"
  callbacks :: "callback list"


text \<open>The variables of one call of \<^verbatim>\<open>All\<close> (\<^verbatim>\<open>count\<close>, \<^verbatim>\<open>count_success\<close>,
  \<^verbatim>\<open>_results\<close>) and of one call of \<^verbatim>\<open>Any\<close> (\<^verbatim>\<open>failures\<close>, \<^verbatim>\<open>total\<close>,
  \<^verbatim>\<open>proms\<close>), shared by the closures of that call.\<close>

record All_frame =
  count :: nat
  count_success :: nat
  results :: "val list"

record Any_frame =
  failures :: nat
  total :: nat
  proms :: "addr list"

text \<open>The two channels of one call of \<^verbatim>\<open>Channel\<close>, each of capacity 1.\<close>

record chan_pair =
  res_buf :: "val option"
  res_closed :: bool
  err_buf :: "error option option"
  err_closed :: bool

type_synonym task = "callback \<times> nat \<times> val \<times> error option"

record world =
  heap :: "addr \<Rightarrow> aPromise"
  nextp :: addr
  all_frames :: "nat \<Rightarrow> All_frame"
  next_all :: nat
  any_frames :: "nat \<Rightarrow> Any_frame"
  next_any :: nat
  chan_pairs :: "nat \<Rightarrow> chan_pair"
  next_chan :: nat
  tasks :: "task list"

definition fresh :: aPromise where
  "fresh = \<lparr>status = PromisePending, result = VNil, reject = None, callbacks = []\<rparr>"

definition init :: world where
  "init = \<lparr>heap = (\<lambda>_. fresh), nextp = 0,
     all_frames = (\<lambda>_. \<lparr>count = 0, count_success = 0, results = []\<rparr>), next_all = 0,
     any_frames = (\<lambda>_. \<lparr>failures = 0, total = 0, proms = []\<rparr>), next_any = 0,
     chan_pairs = (\<lambda>_. \<lparr>res_buf = None, res_closed = False, err_buf = None, err_closed = False\<rparr>),
     next_chan = 0, tasks = []\<rparr>"

section \<open>The settlement core\<close>

text \<open>\<^verbatim>\<open>for _, han := range prom.callbacks { go han(st, val, err) }\<close>\<close>

definition spawn :: "callback list \<Rightarrow> nat \<Rightarrow> val \<Rightarrow> error option \<Rightarrow> world \<Rightarrow> world" where
  "spawn cbs st v e w = w\<lparr>tasks := tasks w @ map (\<lambda>h. (h, st, v, e)) cbs\<rparr>"

text \<open>The closure \<^verbatim>\<open>reject\<close> of \<^verbatim>\<open>NewPromise\<close> for the promise at \<open>a\<close>.  It returns nil.\<close>

definition NewPromise_reject :: "addr \<Rightarrow> error option \<Rightarrow> world \<Rightarrow> world" where
  "NewPromise_reject a err w =
     (let p = heap w a in
      if status p = PromisePending then
        spawn (callbacks p) PromiseRejected VNil err
          (w\<lparr>heap := (heap w)(a := p\<lparr>status := PromiseRejected, reject := err, callbacks := []\<rparr>)\<rparr>)
      else w)"

text \<open>\<^verbatim>\<open>NewPromise\<close>: the object is allocated pending, the handler runs with the new
  \<^verbatim>\<open>resolve\<close>/\<^verbatim>\<open>reject\<close> pair (the address stands for both), and a non-nil error
  returned by the handler rejects.\<close>

definition NewPromise :: "(addr \<Rightarrow> world \<Rightarrow> error option \<times> world) \<Rightarrow> world \<Rightarrow> addr \<times> world" where
  "NewPromise handler w =
     (let a = nextp w;
          w1 = w\<lparr>heap := (heap w)(a := fresh), nextp := Suc a\<rparr>;
          (e, w2) = handler a w1
      in (a, if e \<noteq> None then NewPromise_reject a e w2 else w2))"

text \<open>\<^verbatim>\<open>Then\<close>: the handler of the derived promise builds \<^verbatim>\<open>handle\<close> and either
  enqueues it on \<open>p\<close> (pending) or starts it as a goroutine with the values \<open>p\<close> holds.\<close>

definition Then :: "addr \<Rightarrow> resolver option \<Rightarrow> rejector option \<Rightarrow> world \<Rightarrow> addr \<times> world" where
  "Then p onsuccess onfail =
     NewPromise (\<lambda>a w.
       (None,
        let pp = heap w p; han = Handle onsuccess onfail a in
        if status pp = PromisePending
        then w\<lparr>heap := (heap w)(p := pp\<lparr>callbacks := callbacks pp @ [han]\<rparr>)\<rparr>
        else w\<lparr>tasks := tasks w @ [(han, status pp, result pp, reject pp)]\<rparr>))"

definition Catch :: "addr \<Rightarrow> rejector \<Rightarrow> world \<Rightarrow> addr \<times> world" where
  "Catch p catch = Then p None (Some catch)"

text \<open>The type assertion \<^verbatim>\<open>(val).(Thenable)\<close>.\<close>

fun thenable :: "val \<Rightarrow> bool" where
  "thenable (VProm b) = True"
| "thenable _ = False"

text \<open>The type assertion \<^verbatim>\<open>(res).(error)\<close>; a value it accepts is never the nil
  interface, so the test \<^verbatim>\<open>err != nil\<close> that follows it always holds.\<close>

fun is_error :: "val \<Rightarrow> bool" where
  "is_error (VErr e) = True"
| "is_error _ = False"

text \<open>The closure \<^verbatim>\<open>resolve\<close> of \<^verbatim>\<open>NewPromise\<close> for the promise at \<open>a\<close>.  It returns
  nil.  \<^verbatim>\<open>Then\<close> of an \<^verbatim>\<open>aPromise\<close> raises nothing, so the deferred \<^verbatim>\<open>recover\<close> of
  the first branch finds nil and does nothing.\<close>

definition NewPromise_resolve :: "addr \<Rightarrow> val \<Rightarrow> world \<Rightarrow> world" where
  "NewPromise_resolve a v w =
     (case v of
        VProm b \<Rightarrow> snd (Then b (Some (ResolveOf a)) (Some (RejectOf a)) w)
      | _ \<Rightarrow>
         (let p = heap w a in
          if status p = PromisePending then
            spawn (callbacks p) PromiseResolved v None
              (w\<lparr>heap := (heap w)(a := p\<lparr>status := PromiseResolved, result := v, callbacks := []\<rparr>)\<rparr>)
          else w))"

text \<open>\<^verbatim>\<open>GetStatus\<close> indexes \<^verbatim>\<open>PromiseStatusName\<close>; an index out of range is a
  run-time panic of Go, here \<open>Inl\<close>.\<close>

definition GetStatus :: "aPromise \<Rightarrow> error + string" where
  "GetStatus p =
     (if status p < length PromiseStatusName then Inr (PromiseStatusName ! status p)
      else Inl (RuntimeError ''index out of range''))"




section \<open>Calling closures\<close>

text \<open>A call of a \<^verbatim>\<open>Resolver\<close>.  \<open>AllResolver i c a\<close> is \<^verbatim>\<open>make_resolver(i, p, resolve)\<close>
  of the call of \<^verbatim>\<open>All\<close> with frame \<open>c\<close> and promise \<open>a\<close>; \<open>ChanResolver k\<close> is the
  first closure of \<^verbatim>\<open>Channel\<close>.  A send on a closed channel and a second close
  panic; a send on a full channel parks the goroutine.\<close>

fun call_resolver :: "resolver \<Rightarrow> val \<Rightarrow> world \<Rightarrow> hres \<times> world" where
  "call_resolver (UserResolver f) v w = (f v, w)"
| "call_resolver (ResolveOf a) v w = (Return VNil, NewPromise_resolve a v w)"
| "call_resolver (AllResolver i c a) u w =
     (let fr = all_frames w c in
      if length (results fr) \<le> i then (Panic (VErr (RuntimeError ''index out of range'')), w)
      else
        let fr1 = fr\<lparr>results := (results fr)[i := u], count_success := count_success fr + 1\<rparr>;
            w1 = w\<lparr>all_frames := (all_frames w)(c := fr1)\<rparr>
        in if count fr1 = count_success fr1
           then (Return VNil, NewPromise_resolve a (VList (results fr1)) w1)
           else (Return VNil, w1))"
| "call_resolver (ChanResolver k) i w =
     (let ch = chan_pairs w k in
      if res_closed ch then (Panic (VErr (RuntimeError ''send on closed channel'')), w)
      else if res_buf ch \<noteq> None then (Blocks, w)
      else
        let ch1 = ch\<lparr>res_buf := Some i\<rparr> in
        if err_closed ch1
        then (Panic (VErr (RuntimeError ''close of closed channel'')),
              w\<lparr>chan_pairs := (chan_pairs w)(k := ch1)\<rparr>)
        else (Return VNil,
              w\<lparr>chan_pairs := (chan_pairs w)(k := ch1\<lparr>err_closed := True, res_closed := True\<rparr>)\<rparr>))"

text \<open>A call of a \<^verbatim>\<open>Rejector\<close>.  \<open>AnyRejector c a\<close> is the closure \<^verbatim>\<open>Any\<close> passes as
  \<^verbatim>\<open>onfail\<close>; \<open>ChanRejector k\<close> is the second closure of \<^verbatim>\<open>Channel\<close>.\<close>

fun call_rejector :: "rejector \<Rightarrow> error option \<Rightarrow> world \<Rightarrow> hres \<times> world" where
  "call_rejector (UserRejector f) e w = (f e, w)"
| "call_rejector (RejectOf a) e w = (Return VNil, NewPromise_reject a e w)"
| "call_rejector (AnyRejector c a) e w =
     (let fr = any_frames w c;
          fr1 = fr\<lparr>failures := failures fr + 1\<rparr>;
          w1 = w\<lparr>any_frames := (any_frames w)(c := fr1)\<rparr>
      in if failures fr1 = total fr1
         then (Return VNil,
               NewPromise_reject a (Some (MultiPromiseError (proms fr1) ''all promises failed'')) w1)
         else (Return VNil, w1))"
| "call_rejector (ChanRejector k) e w =
     (let ch = chan_pairs w k in
      if err_closed ch then (Panic (VErr (RuntimeError ''send on closed channel'')), w)
      else if err_buf ch \<noteq> None then (Blocks, w)
      else
        let ch1 = ch\<lparr>err_buf := Some e\<rparr> in
        if res_closed ch1
        then (Panic (VErr (RuntimeError ''close of closed channel'')),
              w\<lparr>chan_pairs := (chan_pairs w)(k := ch1)\<rparr>)
        else (Return VNil,
              w\<lparr>chan_pairs := (chan_pairs w)(k := ch1\<lparr>res_closed := True, err_closed := True\<rparr>)\<rparr>))"

section \<open>The continuation of Then\<close>

text \<open>The body of \<^verbatim>\<open>handle\<close> below its \<^verbatim>\<open>defer\<close>.  The first component is the
  value of a panic in flight when the body is left (\<open>None\<close>: it ended normally, or
  the goroutine is parked for good).  The two type assertions on \<^verbatim>\<open>res\<close> and the
  calls after them stand in the order of the source.\<close>

definition handle_body :: "callback \<Rightarrow> nat \<Rightarrow> val \<Rightarrow> error option \<Rightarrow> world \<Rightarrow> val option \<times> world" where
  "handle_body cb st v err w =
     (case cb of Handle onsuccess onfail a \<Rightarrow>
       if st = PromiseRejected then
         (case onfail of
            Some f \<Rightarrow>
              (case call_rejector f err w of
                 (Panic r, w1) \<Rightarrow> (Some r, w1)
               | (Blocks, w1) \<Rightarrow> (None, w1)
               | (Return res, w1) \<Rightarrow>
                   let w2 = (case res of VErr e \<Rightarrow> NewPromise_reject a (Some e) w1 | _ \<Rightarrow> w1);
                       w3 = (if res \<noteq> VNil then NewPromise_resolve a res w2 else w2)
                   in (None, w3))
          | None \<Rightarrow> (None, NewPromise_reject a err w))
       else if st = PromiseResolved then
         (case onsuccess of
            Some f \<Rightarrow>
              (case call_resolver f v w of
                 (Panic r, w1) \<Rightarrow> (Some r, w1)
               | (Blocks, w1) \<Rightarrow> (None, w1)
               | (Return res, w1) \<Rightarrow>
                   let w2 = (case res of VErr e \<Rightarrow> NewPromise_reject a (Some e) w1 | _ \<Rightarrow> w1);
                       w3 = (case res of
                               VProm b \<Rightarrow> snd (Then b (Some (ResolveOf a)) (Some (RejectOf a)) w2)
                             | _ \<Rightarrow> w2)
                   in (None, NewPromise_resolve a res w3))
          | None \<Rightarrow> (None, NewPromise_resolve a v w))
       else (None, w))"

text \<open>The deferred function of \<^verbatim>\<open>handle\<close>: \<^verbatim>\<open>recover()\<close> stops whatever panic is in
  flight and yields its value (nil when there is none); only a value that is an
  \<^verbatim>\<open>error\<close> is passed to \<^verbatim>\<open>reject\<close>.  The first component of the result is the
  panic that is still in flight afterwards.\<close>

definition handle_deferred :: "addr \<Rightarrow> val option \<Rightarrow> world \<Rightarrow> val option \<times> world" where
  "handle_deferred a r w =
     (case r of
        Some (VErr e) \<Rightarrow> (None, NewPromise_reject a (Some e) w)
      | _ \<Rightarrow> (None, w))"

definition handle :: "callback \<Rightarrow> nat \<Rightarrow> val \<Rightarrow> error option \<Rightarrow> world \<Rightarrow> val option \<times> world" where
  "handle cb st v err w =
     (case cb of Handle onsuccess onfail a \<Rightarrow>
        (case handle_body cb st v err w of (r, w1) \<Rightarrow> handle_deferred a r w1))"

section \<open>Constructors and combinators\<close>

definition Resolve :: "val \<Rightarrow> world \<Rightarrow> addr \<times> world" where
  "Resolve v = NewPromise (\<lambda>a w. (None, NewPromise_resolve a v w))"

definition Reject :: "error option \<Rightarrow> world \<Rightarrow> addr \<times> world" where
  "Reject err = NewPromise (\<lambda>a w. (err, w))"

text \<open>The loop of \<^verbatim>\<open>All\<close> over \<^verbatim>\<open>proms\<close>, from index \<open>i\<close>.\<close>

fun All_register :: "nat \<Rightarrow> addr list \<Rightarrow> nat \<Rightarrow> addr \<Rightarrow> world \<Rightarrow> world" where
  "All_register i [] c a w = w"
| "All_register i (p # ps) c a w =
     All_register (Suc i) ps c a (snd (Then p (Some (AllResolver i c a)) (Some (RejectOf a)) w))"

definition All_promises :: "addr list \<Rightarrow> world \<Rightarrow> addr \<times> world" where
  "All_promises ps =
     NewPromise (\<lambda>a w.
       let c = next_all w;
           w1 = w\<lparr>all_frames := (all_frames w)
                   (c := \<lparr>count = length ps, count_success = 0,
                          results = replicate (length ps) VNil\<rparr>),
                 next_all := Suc c\<rparr>
       in (None, All_register 0 ps c a w1))"

fun Any_register :: "addr list \<Rightarrow> nat \<Rightarrow> addr \<Rightarrow> world \<Rightarrow> world" where
  "Any_register [] c a w = w"
| "Any_register (p # ps) c a w =
     Any_register ps c a (snd (Then p (Some (ResolveOf a)) (Some (AnyRejector c a)) w))"

definition Any :: "addr list \<Rightarrow> world \<Rightarrow> addr \<times> world" where
  "Any ps =
     NewPromise (\<lambda>a w.
       let c = next_any w;
           w1 = w\<lparr>any_frames := (any_frames w)
                   (c := \<lparr>failures = 0, total = length ps, proms = ps\<rparr>),
                 next_any := Suc c\<rparr>
       in (None, Any_register ps c a w1))"

section \<open>Channel and Wait\<close>

definition Channel :: "addr \<Rightarrow> world \<Rightarrow> nat \<times> world" where
  "Channel p w =
     (let k = next_chan w;
          w1 = w\<lparr>chan_pairs := (chan_pairs w)
                  (k := \<lparr>res_buf = None, res_closed = False, err_buf = None, err_closed = False\<rparr>),
                next_chan := Suc k\<rparr>
      in (k, snd (Then p (Some (ChanResolver k)) (Some (ChanRejector k)) w1)))"

text \<open>The \<^verbatim>\<open>select\<close> of \<^verbatim>\<open>Wait\<close>, evaluated on the channels as they are: the list
  of what it may return, one entry for each case that can proceed (a receive can
  proceed on a buffered value and on a closed channel, where it yields the zero
  value); Go chooses among them.  The empty list means that \<^verbatim>\<open>select\<close> parks.\<close>

definition Wait_select :: "chan_pair \<Rightarrow> (val \<times> error option) list" where
  "Wait_select ch =
     (case res_buf ch of
        Some r \<Rightarrow> [(r, None)]
      | None \<Rightarrow> (if res_closed ch then [(VNil, None)] else []))
     @
     (case err_buf ch of
        Some e \<Rightarrow> [(VNil, e)]
      | None \<Rightarrow> (if err_closed ch then [(VNil, None)] else []))"

section \<open>Scheduling\<close>

text \<open>The goroutine at position \<open>k\<close> of the pool runs.\<close>

definition run_task :: "nat \<Rightarrow> world \<Rightarrow> world" where
  "run_task k w =
     (if k < length (tasks w) then
        (case tasks w ! k of
           (cb, st, v, e) \<Rightarrow>
             snd (handle cb st v e (w\<lparr>tasks := take k (tasks w) @ drop (Suc k) (tasks w)\<rparr>)))
      else w)"

text \<open>\<^verbatim>\<open>Wait\<close>: \<^verbatim>\<open>Channel\<close> subscribes the two closures, then \<^verbatim>\<open>select\<close> is
  evaluated.  \<open>sched\<close> lists the goroutines that run between the two (positions
  in the pool); the result is what \<^verbatim>\<open>select\<close> may return at that moment.  When the
  list is empty \<^verbatim>\<open>select\<close> parks, and the first send of a continuation that runs
  later completes it with the value sent.\<close>

definition Wait :: "addr \<Rightarrow> nat list \<Rightarrow> world \<Rightarrow> (val \<times> error option) list \<times> world" where
  "Wait p sched w =
     (let (k, w1) = Channel p w;
          w2 = foldl (\<lambda>w j. run_task j w) w1 sched
      in (Wait_select (chan_pairs w2 k), w2))"

text \<open>One transition of the program: a call of the public interface, a call of a
  promise's \<^verbatim>\<open>resolve\<close> or \<^verbatim>\<open>reject\<close> (by its executor, at any time), or the run of
  a started goroutine.\<close>

inductive step :: "world \<Rightarrow> world \<Rightarrow> bool" where
  step_Resolve: "step w (snd (Resolve v w))"
| step_Reject: "step w (snd (Reject e w))"
| step_Then: "step w (snd (Then p f g w))"
| step_All: "step w (snd (All_promises ps w))"
| step_Any: "step w (snd (Any ps w))"
| step_Channel: "step w (snd (Channel p w))"
| step_resolve: "step w (NewPromise_resolve a v w)"
| step_reject: "step w (NewPromise_reject a e w)"
| step_run: "step w (run_task k w)"

definition reachable :: "world \<Rightarrow> bool" where
  "reachable w = step\<^sup>*\<^sup>* init w"

section \<open>Continuations of the combinators under the scheduler\<close>








definition same_settlement :: "addr \<Rightarrow> world \<Rightarrow> world \<Rightarrow> bool" where
  "same_settlement a w w' =
     (status (heap w' a) = status (heap w a) \<and> result (heap w' a) = result (heap w a) \<and>
      reject (heap w' a) = reject (heap w a))"

text \<open>The continuation \<^verbatim>\<open>All\<close> subscribes on input \<open>i\<close>: \<^verbatim>\<open>make_resolver(i, p, resolve)\<close>
  and \<^verbatim>\<open>reject\<close> of the promise \<open>a\<close> of \<^verbatim>\<open>All\<close>, with the derived promise \<open>d\<close> that
  \<^verbatim>\<open>Then\<close> returns.\<close>

definition All_continuation :: "nat \<Rightarrow> addr \<Rightarrow> nat \<Rightarrow> addr \<Rightarrow> callback" where
  "All_continuation c a i d = Handle (Some (AllResolver i c a)) (Some (RejectOf a)) d"



text \<open>The continuation \<^verbatim>\<open>Any\<close> subscribes on each input: \<^verbatim>\<open>resolve\<close> of its promise
  \<open>a\<close> and the closure that counts failures in frame \<open>c\<close>.\<close>

definition Any_continuation :: "nat \<Rightarrow> addr \<Rightarrow> addr \<Rightarrow> callback" where
  "Any_continuation c a d = Handle (Some (ResolveOf a)) (Some (AnyRejector c a)) d"



section \<open>Chains of thenables\<close>







section \<open>What every transition preserves\<close>

text \<open>\<open>evolves w w'\<close>: no promise is deallocated, a promise of \<open>w\<close> that has
  settled is the same object in \<open>w'\<close>, and a status that differs from the one in
  \<open>w\<close> is one of the three constants.\<close>

definition evolves :: "world \<Rightarrow> world \<Rightarrow> bool" where
  "evolves w w' =
     (nextp w \<le> nextp w' \<and>
      (\<forall>x. (x < nextp w \<and> status (heap w x) \<noteq> PromisePending \<longrightarrow> heap w' x = heap w x) \<and>
           (status (heap w' x) = status (heap w x) \<or>
            status (heap w' x) \<in> {PromisePending, PromiseResolved, PromiseRejected})))"


section \<open>Proofs: every operation evolves the world\<close>

lemma evolves_refl: "evolves w w"
  by (simp add: evolves_def)

lemma evolves_trans: "evolves w w1 \<Longrightarrow> evolves w1 w2 \<Longrightarrow> evolves w w2"
  unfolding evolves_def by (metis order_trans less_le_trans)

lemma evolves_tasks: "evolves w (w\<lparr>tasks := ts\<rparr>)"
  by (simp add: evolves_def)

lemma evolves_reject: "evolves w (NewPromise_reject a e w)"
  by (simp add: evolves_def NewPromise_reject_def spawn_def Let_def)

lemma evolves_NewPromise:
  assumes "\<And>a w1. evolves w1 (snd (handler a w1))"
  shows "evolves w (snd (NewPromise handler w))"
proof -
  let ?a = "nextp w"
  let ?w1 = "w\<lparr>heap := (heap w)(?a := fresh), nextp := Suc ?a\<rparr>"
  have 1: "evolves w ?w1"
    by (simp add: evolves_def fresh_def)
  have 2: "evolves ?w1 (snd (handler ?a ?w1))" by (rule assms)
  obtain e w2 where h: "handler ?a ?w1 = (e, w2)" by (cases "handler ?a ?w1")
  have 3: "evolves w w2" using 1 2 h evolves_trans by fastforce
  have "snd (NewPromise handler w) = (if e \<noteq> None then NewPromise_reject ?a e w2 else w2)"
    by (simp add: NewPromise_def Let_def h)
  then show ?thesis using 3 evolves_reject evolves_trans by (metis (full_types))
qed

lemma evolves_Then: "evolves w (snd (Then p f g w))"
  unfolding Then_def
  by (rule evolves_NewPromise) (simp add: evolves_def Let_def)

lemma evolves_resolve: "evolves w (NewPromise_resolve a v w)"
  by (cases v) (simp_all add: NewPromise_resolve_def evolves_Then, simp_all add: evolves_def spawn_def Let_def)

lemma evolves_frames:
  "evolves w (w\<lparr>all_frames := x\<rparr>)" "evolves w (w\<lparr>any_frames := y\<rparr>)"
  "evolves w (w\<lparr>chan_pairs := z\<rparr>)"
  by (simp_all add: evolves_def)

lemma evolves_call_resolver: "evolves w (snd (call_resolver f v w))"
proof (cases f)
  case (UserResolver h)
  then show ?thesis by (simp add: evolves_refl)
next
  case (ResolveOf a)
  then show ?thesis by (simp add: evolves_resolve)
next
  case (AllResolver i c a)
  then show ?thesis
    by (auto simp: Let_def evolves_refl evolves_frames
          intro: evolves_trans [OF evolves_frames(1) evolves_resolve])
next
  case (ChanResolver k)
  then show ?thesis by (simp add: Let_def evolves_refl evolves_frames)
qed

lemma evolves_call_rejector: "evolves w (snd (call_rejector f e w))"
proof (cases f)
  case (UserRejector h)
  then show ?thesis by (simp add: evolves_refl)
next
  case (RejectOf a)
  then show ?thesis by (simp add: evolves_reject)
next
  case (AnyRejector c a)
  then show ?thesis
    by (auto simp: Let_def evolves_frames
          intro: evolves_trans [OF evolves_frames(2) evolves_reject])
next
  case (ChanRejector k)
  then show ?thesis by (simp add: Let_def evolves_refl evolves_frames)
qed

lemma evolves_after_result:
  "evolves w1
     (NewPromise_resolve a res
        (case res of
           VProm b \<Rightarrow> snd (Then b (Some (ResolveOf a)) (Some (RejectOf a))
                          (case res of VErr e \<Rightarrow> NewPromise_reject a (Some e) w1 | _ \<Rightarrow> w1))
         | _ \<Rightarrow> (case res of VErr e \<Rightarrow> NewPromise_reject a (Some e) w1 | _ \<Rightarrow> w1)))"
  by (cases res)
     (auto intro: evolves_resolve evolves_trans [OF evolves_reject evolves_resolve]
                  evolves_trans [OF evolves_Then evolves_resolve])

lemma evolves_handle_body: "evolves w (snd (handle_body cb st v err w))"
proof (cases cb)
  case (Handle onsuccess onfail a)
  show ?thesis
  proof (cases "st = PromiseRejected")
    case True
    show ?thesis
    proof (cases onfail)
      case None
      then show ?thesis using Handle True by (simp add: handle_body_def evolves_reject)
    next
      case (Some f)
      obtain r w1 where c: "call_rejector f err w = (r, w1)" by (cases "call_rejector f err w")
      then have e1: "evolves w w1" using evolves_call_rejector [of w f err] by simp
      show ?thesis
      proof (cases r)
        case (Return res)
        have "evolves w1 (if res \<noteq> VNil
                 then NewPromise_resolve a res (case res of VErr e \<Rightarrow> NewPromise_reject a (Some e) w1 | _ \<Rightarrow> w1)
                 else (case res of VErr e \<Rightarrow> NewPromise_reject a (Some e) w1 | _ \<Rightarrow> w1))"
          by (cases res)
             (auto intro: evolves_refl evolves_resolve evolves_trans [OF evolves_reject evolves_resolve])
        then show ?thesis using Handle True Some c Return e1
          by (auto simp: handle_body_def Let_def intro: evolves_trans)
      next
        case (Panic x)
        then show ?thesis using Handle True Some c e1 by (simp add: handle_body_def)
      next
        case Blocks
        then show ?thesis using Handle True Some c e1 by (simp add: handle_body_def)
      qed
    qed
  next
    case False
    show ?thesis
    proof (cases "st = PromiseResolved")
      case nres: False
      then show ?thesis using Handle False by (simp add: handle_body_def evolves_refl)
    next
      case True
      show ?thesis
      proof (cases onsuccess)
        case None
        then show ?thesis using Handle True False by (simp add: handle_body_def evolves_resolve)
      next
        case (Some f)
        obtain r w1 where c: "call_resolver f v w = (r, w1)" by (cases "call_resolver f v w")
        then have e1: "evolves w w1" using evolves_call_resolver [of w f v] by simp
        show ?thesis
        proof (cases r)
          case (Return res)
          show ?thesis using Handle True False Some c Return
              evolves_trans [OF e1 evolves_after_result [of w1 a res]]
            by (simp add: handle_body_def Let_def)
        next
          case (Panic x)
          then show ?thesis using Handle True False Some c e1 by (simp add: handle_body_def)
        next
          case Blocks
          then show ?thesis using Handle True False Some c e1 by (simp add: handle_body_def)
        qed
      qed
    qed
  qed
qed

lemma evolves_handle_deferred: "evolves w (snd (handle_deferred a r w))"
  by (auto simp: handle_deferred_def evolves_refl evolves_reject split: option.splits val.splits)

lemma evolves_handle: "evolves w (snd (handle cb st v err w))"
proof (cases cb)
  case (Handle onsuccess onfail a)
  obtain r w1 where b: "handle_body cb st v err w = (r, w1)" by (cases "handle_body cb st v err w")
  then have "evolves w w1" using evolves_handle_body [of w cb st v err] by simp
  then show ?thesis using Handle b evolves_handle_deferred [of w1 a r]
    by (auto simp: handle_def intro: evolves_trans)
qed

lemma evolves_run_task: "evolves w (run_task k w)"
  by (auto simp: run_task_def split: prod.splits
        intro: evolves_refl evolves_trans [OF evolves_tasks evolves_handle])

lemma evolves_All_register: "evolves w (All_register i ps c a w)"
  by (induction ps arbitrary: i w) (auto intro: evolves_refl evolves_trans [OF evolves_Then])

lemma evolves_Any_register: "evolves w (Any_register ps c a w)"
  by (induction ps arbitrary: w) (auto intro: evolves_refl evolves_trans [OF evolves_Then])

lemma evolves_next:
  "evolves w (w\<lparr>all_frames := x, next_all := n\<rparr>)" "evolves w (w\<lparr>any_frames := y, next_any := n\<rparr>)"
  "evolves w (w\<lparr>chan_pairs := z, next_chan := n\<rparr>)"
  by (simp_all add: evolves_def)

lemma evolves_All: "evolves w (snd (All_promises ps w))"
  unfolding All_promises_def
  by (rule evolves_NewPromise)
     (simp add: Let_def evolves_trans [OF evolves_next(1) evolves_All_register])

lemma evolves_Any: "evolves w (snd (Any ps w))"
  unfolding Any_def
  by (rule evolves_NewPromise)
     (simp add: Let_def evolves_trans [OF evolves_next(2) evolves_Any_register])

lemma evolves_Channel: "evolves w (snd (Channel p w))"
  by (simp add: Channel_def Let_def evolves_trans [OF evolves_next(3) evolves_Then])

lemma evolves_Resolve: "evolves w (snd (Resolve v w))"
  unfolding Resolve_def by (rule evolves_NewPromise) (simp add: evolves_resolve)

lemma evolves_Reject: "evolves w (snd (Reject e w))"
  unfolding Reject_def by (rule evolves_NewPromise) (simp add: evolves_refl)

lemma step_evolves: "step w w' \<Longrightarrow> evolves w w'"
  by (induction rule: step.induct)
     (simp_all add: evolves_Resolve evolves_Reject evolves_Then evolves_All evolves_Any
        evolves_Channel evolves_resolve evolves_reject evolves_run_task)

lemma steps_evolves: "step\<^sup>*\<^sup>* w w' \<Longrightarrow> evolves w w'"
  by (induction rule: rtranclp_induct) (auto intro: evolves_refl evolves_trans step_evolves)

lemmas status_defs = PromisePending_def PromiseResolved_def PromiseRejected_def

lemmas world_defs = NewPromise_def NewPromise_reject_def NewPromise_resolve_def Then_def Catch_def
  Resolve_def Reject_def spawn_def fresh_def init_def Let_def

section \<open>Proofs: no promise settles with a thenable\<close>

























section \<open>Settlement is final\<close>



section \<open>The status is always one of the three names\<close>

text \<open>C10: in every world the program can reach, the status of every promise is
  \<open>PromisePending\<close> (0), \<open>PromiseResolved\<close> (1) or \<open>PromiseRejected\<close> (2), which is an
  index inside \<^verbatim>\<open>PromiseStatusName\<close>, so \<^verbatim>\<open>GetStatus\<close> returns a name and does not
  fault.\<close>

theorem status_always_named:
  "reachable w \<Longrightarrow>
     status (heap w a) \<in> {PromisePending, PromiseResolved, PromiseRejected} \<and>
     status (heap w a) < length PromiseStatusName \<and>
     GetStatus (heap w a) = Inr (PromiseStatusName ! status (heap w a))"
proof -
  assume "reachable w"
  then have "evolves init w" by (simp add: reachable_def steps_evolves)
  then have s: "status (heap w a) \<in> {PromisePending, PromiseResolved, PromiseRejected}"
    by (auto simp: evolves_def init_def fresh_def)
  then have "status (heap w a) < length PromiseStatusName"
    by (auto simp: status_defs PromiseStatusName_def)
  then show ?thesis using s by (simp add: GetStatus_def)
qed

theorem status_always_named_witness:
  "GetStatus (heap (snd (Reject (Some (ErrorString ''E'')) init)) 0) = Inr ''Rejected''"
proof -
  have r: "reachable (snd (Reject (Some (ErrorString ''E'')) init))"
    unfolding reachable_def by (rule r_into_rtranclp) (rule step_Reject)
  have "status (heap (snd (Reject (Some (ErrorString ''E'')) init)) 0) = 2"
    by (simp add: world_defs status_defs)
  then show ?thesis
    using status_always_named [OF r, of 0] by (simp add: PromiseStatusName_def)
qed

section \<open>The result of a handler\<close>

lemma reject_pending:
  "status (heap w a) = PromisePending \<Longrightarrow>
     heap (NewPromise_reject a e w) a =
       (heap w a)\<lparr>status := PromiseRejected, reject := e, callbacks := []\<rparr>"
  by (simp add: NewPromise_reject_def spawn_def Let_def)

lemma resolve_pending:
  "status (heap w a) = PromisePending \<Longrightarrow> \<not> thenable v \<Longrightarrow>
     heap (NewPromise_resolve a v w) a =
       (heap w a)\<lparr>status := PromiseResolved, result := v, callbacks := []\<rparr>"
  by (cases v) (simp_all add: NewPromise_resolve_def spawn_def Let_def)

lemma reject_settled: "status (heap w a) \<noteq> PromisePending \<Longrightarrow> NewPromise_reject a e w = w"
  by (simp add: NewPromise_reject_def)

lemma resolve_settled: "status (heap w a) \<noteq> PromisePending \<Longrightarrow> \<not> thenable v \<Longrightarrow> NewPromise_resolve a v w = w"
  by (cases v) (simp_all add: NewPromise_resolve_def)

lemma resolve_after_reject:
  "\<not> thenable v \<Longrightarrow> NewPromise_resolve a v (NewPromise_reject a e w) = NewPromise_reject a e w"
proof (cases "status (heap w a) = PromisePending")
  case True
  assume "\<not> thenable v"
  moreover have "status (heap (NewPromise_reject a e w) a) \<noteq> PromisePending"
    using True by (simp add: reject_pending status_defs)
  ultimately show ?thesis by (rule resolve_settled [rotated])
next
  case False
  assume "\<not> thenable v"
  then show ?thesis using False by (simp add: reject_settled resolve_settled)
qed

lemma not_error_case: "\<not> is_error r \<Longrightarrow> (case r of VErr e \<Rightarrow> A e | _ \<Rightarrow> B) = B"
  by (cases r) simp_all

lemma handle_no_escape: "fst (handle cb st v err w) = None"
  by (cases cb)
     (auto simp: handle_def handle_deferred_def split: prod.splits option.splits val.splits)

text \<open>C2: when the promise a continuation belongs to has resolved and the handler
  \<^verbatim>\<open>onsuccess\<close> returns an error value, the run of the continuation is exactly one
  call of \<^verbatim>\<open>reject\<close> of the derived promise with that error: the test for a
  promise does not match, and the call of \<^verbatim>\<open>resolve\<close> that follows finds the
  promise settled and changes nothing.  A derived promise that was pending is
  rejected with the error, its value untouched.\<close>

theorem error_result_only_rejects:
  assumes "h v = Return (VErr e)"
  shows "handle (Handle (Some (UserResolver h)) g a) PromiseResolved v err w
           = (None, NewPromise_reject a (Some e) w) \<and>
         (status (heap w a) = PromisePending \<longrightarrow>
            heap (snd (handle (Handle (Some (UserResolver h)) g a) PromiseResolved v err w)) a
              = (heap w a)\<lparr>status := PromiseRejected, reject := Some e, callbacks := []\<rparr>)"
proof -
  have "handle (Handle (Some (UserResolver h)) g a) PromiseResolved v err w
           = (None, NewPromise_reject a (Some e) w)"
    using assms
    by (simp add: handle_def handle_body_def handle_deferred_def status_defs resolve_after_reject)
  then show ?thesis by (simp add: reject_pending)
qed

theorem error_result_only_rejects_witness:
  "status (heap (run_task 0 (snd (Then 0 (Some (UserResolver (\<lambda>x. Return (VErr (ErrorString ''bad''))))) None
       (snd (Resolve (VInt 5) init))))) 1) = PromiseRejected \<and>
   reject (heap (run_task 0 (snd (Then 0 (Some (UserResolver (\<lambda>x. Return (VErr (ErrorString ''bad''))))) None
       (snd (Resolve (VInt 5) init))))) 1) = Some (ErrorString ''bad'') \<and>
   result (heap (run_task 0 (snd (Then 0 (Some (UserResolver (\<lambda>x. Return (VErr (ErrorString ''bad''))))) None
       (snd (Resolve (VInt 5) init))))) 1) = VNil"
proof -
  let ?h = "\<lambda>x::val. Return (VErr (ErrorString ''bad''))"
  let ?W = "snd (Then 0 (Some (UserResolver ?h)) None (snd (Resolve (VInt 5) init)))"
  have t: "tasks ?W = [(Handle (Some (UserResolver ?h)) None 1, PromiseResolved, VInt 5, None)]"
    by (simp add: world_defs status_defs)
  have p: "heap (?W\<lparr>tasks := []\<rparr>) 1 = fresh"
    by (simp add: world_defs status_defs)
  have run: "run_task 0 ?W
      = snd (handle (Handle (Some (UserResolver ?h)) None 1) PromiseResolved (VInt 5) None (?W\<lparr>tasks := []\<rparr>))"
    by (simp add: run_task_def t)
  have pend: "status (heap (?W\<lparr>tasks := []\<rparr>) 1) = PromisePending"
    by (simp only: p) (simp add: fresh_def)
  note th = error_result_only_rejects [of ?h "VInt 5" "ErrorString ''bad''" None 1 None
      "?W\<lparr>tasks := []\<rparr>", OF refl, THEN conjunct2, THEN mp, OF pend]
  have "heap (run_task 0 ?W) 1
          = fresh\<lparr>status := PromiseRejected, reject := Some (ErrorString ''bad''), callbacks := []\<rparr>"
    by (simp only: run th p)
  then show ?thesis by (simp add: fresh_def)
qed

text \<open>C3, as stated, fails: a rejection handler attached with \<^verbatim>\<open>Catch\<close> that returns
  nil leaves the derived promise (address 1) pending, with no goroutine left to run;
  it is not resolved with nil.\<close>

theorem nil_recovery_counterexample:
  "status (heap (run_task 0 (snd (Catch 0 (UserRejector (\<lambda>e. Return VNil))
       (snd (Reject (Some (ErrorString ''E'')) init))))) 1) \<noteq> PromiseResolved \<and>
   status (heap (run_task 0 (snd (Catch 0 (UserRejector (\<lambda>e. Return VNil))
       (snd (Reject (Some (ErrorString ''E'')) init))))) 1) = PromisePending \<and>
   tasks (run_task 0 (snd (Catch 0 (UserRejector (\<lambda>e. Return VNil))
       (snd (Reject (Some (ErrorString ''E'')) init))))) = []"
  by (simp add: run_task_def handle_def handle_body_def handle_deferred_def world_defs status_defs)

text \<open>C3, amended: when the promise has rejected and the handler \<^verbatim>\<open>onfail\<close> returns a
  value that is not nil, not an error and not a thenable, the run of the continuation
  is one call of \<^verbatim>\<open>resolve\<close> of the derived promise, which resolves it with that
  value.  \<^verbatim>\<open>Catch\<close> is \<^verbatim>\<open>Then\<close> with no \<^verbatim>\<open>onsuccess\<close>.\<close>

theorem recovery_value_resolves:
  assumes "h err = Return r" and "r \<noteq> VNil" and "\<not> is_error r" and "\<not> thenable r"
    and "status (heap w a) = PromisePending"
  shows "handle (Handle f (Some (UserRejector h)) a) PromiseRejected v err w
           = (None, NewPromise_resolve a r w) \<and>
         heap (NewPromise_resolve a r w) a
           = (heap w a)\<lparr>status := PromiseResolved, result := r, callbacks := []\<rparr> \<and>
         Catch p (UserRejector h) = Then p None (Some (UserRejector h))"
  using assms
  by (simp add: handle_def handle_body_def handle_deferred_def status_defs not_error_case
        resolve_pending Catch_def)

theorem recovery_value_resolves_witness:
  "status (heap (run_task 0 (snd (Catch 0 (UserRejector (\<lambda>e. Return (VInt 42)))
       (snd (Reject (Some (ErrorString ''E'')) init))))) 1) = PromiseResolved \<and>
   result (heap (run_task 0 (snd (Catch 0 (UserRejector (\<lambda>e. Return (VInt 42)))
       (snd (Reject (Some (ErrorString ''E'')) init))))) 1) = VInt 42"
proof -
  let ?h = "\<lambda>e::error option. Return (VInt 42)"
  let ?W = "snd (Catch 0 (UserRejector ?h) (snd (Reject (Some (ErrorString ''E'')) init)))"
  have t: "tasks ?W = [(Handle None (Some (UserRejector ?h)) 1, PromiseRejected, VNil, Some (ErrorString ''E''))]"
    by (simp add: world_defs status_defs)
  have p: "heap (?W\<lparr>tasks := []\<rparr>) 1 = fresh"
    by (simp add: world_defs status_defs)
  have run: "run_task 0 ?W
      = snd (handle (Handle None (Some (UserRejector ?h)) 1) PromiseRejected VNil (Some (ErrorString ''E''))
               (?W\<lparr>tasks := []\<rparr>))"
    by (simp add: run_task_def t)
  have pend: "status (heap (?W\<lparr>tasks := []\<rparr>) 1) = PromisePending"
    by (simp only: p) (simp add: fresh_def)
  have a1: "VInt 42 \<noteq> VNil" and a2: "\<not> is_error (VInt 42)" and a3: "\<not> thenable (VInt 42)"
    by simp_all
  note th = recovery_value_resolves [of ?h "Some (ErrorString ''E'')" "VInt 42" "?W\<lparr>tasks := []\<rparr>" 1
      None VNil 0, OF refl a1 a2 a3 pend]
  have "heap (run_task 0 ?W) 1 = fresh\<lparr>status := PromiseResolved, result := VInt 42, callbacks := []\<rparr>"
    by (simp only: run th [THEN conjunct1] th [THEN conjunct2, THEN conjunct1] p snd_conv)
  then show ?thesis by (simp add: fresh_def)
qed

text \<open>C4, as stated, fails: a handler that panics with a string leaves the derived
  promise (address 1) pending, with no goroutine left to run; the panic is stopped,
  but it is not turned into a rejection.\<close>

theorem string_panic_counterexample:
  "status (heap (run_task 0 (snd (Then 0 (Some (UserResolver (\<lambda>x. Panic (VStr ''boom'')))) None
       (snd (Resolve (VInt 5) init))))) 1) \<noteq> PromiseRejected \<and>
   status (heap (run_task 0 (snd (Then 0 (Some (UserResolver (\<lambda>x. Panic (VStr ''boom'')))) None
       (snd (Resolve (VInt 5) init))))) 1) = PromisePending \<and>
   tasks (run_task 0 (snd (Then 0 (Some (UserResolver (\<lambda>x. Panic (VStr ''boom'')))) None
       (snd (Resolve (VInt 5) init))))) = []"
  by (simp add: run_task_def handle_def handle_body_def handle_deferred_def world_defs status_defs)

text \<open>C4, amended: when the handler a continuation invokes panics, the deferred
  function recovers the panic; a panic value that is an error rejects the derived
  promise with it, any other panic value is dropped and the world stays as it was.
  No run of a continuation ends with a panic in flight.\<close>

theorem handler_panic_is_recovered:
  assumes "(st = PromiseResolved \<and> cb = Handle (Some (UserResolver h)) g a \<and> h v = Panic r) \<or>
           (st = PromiseRejected \<and> cb = Handle f (Some (UserRejector k)) a \<and> k err = Panic r)"
  shows "handle cb st v err w
           = (None, case r of VErr e \<Rightarrow> NewPromise_reject a (Some e) w | _ \<Rightarrow> w) \<and>
         (r = VErr e \<and> status (heap w a) = PromisePending \<longrightarrow>
            heap (snd (handle cb st v err w)) a
              = (heap w a)\<lparr>status := PromiseRejected, reject := Some e, callbacks := []\<rparr>) \<and>
         (\<forall>cb' st' v' err' w'. fst (handle cb' st' v' err' w') = None)"
proof -
  have 1: "handle cb st v err w
           = (None, case r of VErr e \<Rightarrow> NewPromise_reject a (Some e) w | _ \<Rightarrow> w)"
    using assms
    by (cases r) (auto simp: handle_def handle_body_def handle_deferred_def status_defs)
  show ?thesis
    by (simp add: 1 reject_pending handle_no_escape)
qed

theorem handler_panic_is_recovered_witness:
  "status (heap (run_task 0 (snd (Then 0 (Some (UserResolver (\<lambda>x. Panic (VErr (ErrorString ''boom''))))) None
       (snd (Resolve (VInt 5) init))))) 1) = PromiseRejected \<and>
   reject (heap (run_task 0 (snd (Then 0 (Some (UserResolver (\<lambda>x. Panic (VErr (ErrorString ''boom''))))) None
       (snd (Resolve (VInt 5) init))))) 1) = Some (ErrorString ''boom'')"
proof -
  let ?h = "\<lambda>x::val. Panic (VErr (ErrorString ''boom''))"
  let ?W = "snd (Then 0 (Some (UserResolver ?h)) None (snd (Resolve (VInt 5) init)))"
  let ?cb = "Handle (Some (UserResolver ?h)) None 1"
  have t: "tasks ?W = [(?cb, PromiseResolved, VInt 5, None)]"
    by (simp add: world_defs status_defs)
  have p: "heap (?W\<lparr>tasks := []\<rparr>) 1 = fresh"
    by (simp add: world_defs status_defs)
  have run: "run_task 0 ?W = snd (handle ?cb PromiseResolved (VInt 5) None (?W\<lparr>tasks := []\<rparr>))"
    by (simp add: run_task_def t)
  have pend: "VErr (ErrorString ''boom'') = VErr (ErrorString ''boom'') \<and>
              status (heap (?W\<lparr>tasks := []\<rparr>) 1) = PromisePending"
    by (simp only: p) (simp add: fresh_def)
  have hyp: "(PromiseResolved = PromiseResolved \<and> ?cb = Handle (Some (UserResolver ?h)) None 1 \<and>
                ?h (VInt 5) = Panic (VErr (ErrorString ''boom''))) \<or>
             (PromiseResolved = PromiseRejected \<and> ?cb = Handle None (Some (UserRejector (\<lambda>e. Blocks))) 1 \<and>
                (\<lambda>e::error option. Blocks) None = Panic (VErr (ErrorString ''boom'')))"
    by simp
  note th = handler_panic_is_recovered [where e = "ErrorString ''boom''"
      and w = "?W\<lparr>tasks := []\<rparr>", OF hyp,
      THEN conjunct2, THEN conjunct1, THEN mp, OF pend]
  have "heap (run_task 0 ?W) 1
          = fresh\<lparr>status := PromiseRejected, reject := Some (ErrorString ''boom''), callbacks := []\<rparr>"
    by (simp only: run th p)
  then show ?thesis by (simp add: fresh_def)
qed

section \<open>All of no promises\<close>



section \<open>Wait on a promise whose continuation has run\<close>

text \<open>C9: \<^verbatim>\<open>Wait\<close> on a promise already resolved with 5.  \<^verbatim>\<open>Then\<close>, called inside
  \<^verbatim>\<open>Channel\<close>, starts the continuation as a goroutine.  When \<^verbatim>\<open>select\<close> is
  evaluated before that goroutine runs, it parks.  When the goroutine runs first,
  both channels can proceed (the closed error channel yields nil), so \<^verbatim>\<open>select\<close>
  may return \<open>(5, nil)\<close> or \<open>(nil, nil)\<close>.  Likewise a promise rejected with \<open>E\<close>
  may give \<open>(nil, nil)\<close> or \<open>(nil, E)\<close>.\<close>

theorem Wait_select_after_continuation:
  "fst (Wait 0 [] (snd (Resolve (VInt 5) init))) = [] \<and>
   fst (Wait 0 [0] (snd (Resolve (VInt 5) init))) = [(VInt 5, None), (VNil, None)] \<and>
   fst (Wait 0 [0] (snd (Reject (Some (ErrorString ''E'')) init)))
     = [(VNil, None), (VNil, Some (ErrorString ''E''))]"
  by (simp add: Wait_def Channel_def Wait_select_def run_task_def handle_def handle_body_def
        handle_deferred_def world_defs status_defs)

section \<open>Evaluation and frame lemmas for the combinators\<close>



lemma frames_reject [simp]: "all_frames (NewPromise_reject a e w) = all_frames w"
  by (simp add: NewPromise_reject_def spawn_def Let_def)




lemma Then_keeps:
  "nextp (snd (Then p f g w)) = Suc (nextp w)"
  "all_frames (snd (Then p f g w)) = all_frames w"
  "any_frames (snd (Then p f g w)) = any_frames w"
  "x \<noteq> nextp w \<Longrightarrow> same_settlement x w (snd (Then p f g w))"
  by (simp_all add: Then_def NewPromise_def Let_def same_settlement_def)





lemma Then_unfold:
  "Then p onsuccess onfail w =
     (let a = nextp w;
          w1 = w\<lparr>heap := (heap w)(a := fresh), nextp := Suc a\<rparr>;
          pp = heap w1 p; han = Handle onsuccess onfail a
      in (a, if status pp = PromisePending
             then w1\<lparr>heap := (heap w1)(p := pp\<lparr>callbacks := callbacks pp @ [han]\<rparr>)\<rparr>
             else w1\<lparr>tasks := tasks w1 @ [(han, status pp, result pp, reject pp)]\<rparr>))"
  by (simp add: Then_def NewPromise_def Let_def)

lemma Then_heap:
  "heap (snd (Then p f g w)) =
     (if status (heap w p) = PromisePending \<and> p \<noteq> nextp w
      then (heap w)(nextp w := fresh,
                    p := (heap w p)\<lparr>callbacks := callbacks (heap w p) @ [Handle f g (nextp w)]\<rparr>)
      else if p = nextp w
      then (heap w)(nextp w := fresh\<lparr>callbacks := [Handle f g (nextp w)]\<rparr>)
      else (heap w)(nextp w := fresh))"
  by (auto simp: Then_unfold Let_def fresh_def status_defs fun_eq_iff)



lemma All_promises_unfold:
  "All_promises ps w =
     (nextp w,
      All_register 0 ps (next_all w) (nextp w)
        (w\<lparr>heap := (heap w)(nextp w := fresh), nextp := Suc (nextp w),
           all_frames := (all_frames w)
             (next_all w := \<lparr>count = length ps, count_success = 0,
                              results = replicate (length ps) VNil\<rparr>),
           next_all := Suc (next_all w)\<rparr>))"
  by (simp add: All_promises_def NewPromise_def Let_def)

lemma Any_unfold:
  "Any ps w =
     (nextp w,
      Any_register ps (next_any w) (nextp w)
        (w\<lparr>heap := (heap w)(nextp w := fresh), nextp := Suc (nextp w),
           any_frames := (any_frames w)
             (next_any w := \<lparr>failures = 0, total = length ps, proms = ps\<rparr>),
           next_any := Suc (next_any w)\<rparr>))"
  by (simp add: Any_def NewPromise_def Let_def)


section \<open>All\<close>







text \<open>Which continuation \<^verbatim>\<open>All\<close> leaves on which input: on the input at position
  \<open>i\<close>, when the inputs are distinct pending promises, the continuation with index
  \<open>i\<close>, whose derived promise is the \<open>i\<close>-th one allocated after the promise of
  \<^verbatim>\<open>All\<close>.\<close>

lemma All_register_untouched:
  "x \<notin> set ps \<Longrightarrow> x < nextp w \<Longrightarrow> heap (All_register i ps c a w) x = heap w x"
proof (induction ps arbitrary: i w)
  case Nil
  then show ?case by simp
next
  case (Cons p ps)
  let ?w1 = "snd (Then p (Some (AllResolver i c a)) (Some (RejectOf a)) w)"
  have "heap ?w1 x = heap w x" using Cons.prems by (simp add: Then_heap)
  moreover have "heap (All_register (Suc i) ps c a ?w1) x = heap ?w1 x"
    using Cons.prems by (intro Cons.IH) (simp_all add: Then_keeps(1))
  ultimately show ?case by simp
qed

lemma All_register_subscribes:
  assumes "distinct ps" and "\<forall>p \<in> set ps. p < nextp w \<and> status (heap w p) = PromisePending"
    and "k < length ps"
  shows "callbacks (heap (All_register i ps c a w) (ps ! k))
           = callbacks (heap w (ps ! k)) @ [All_continuation c a (i + k) (nextp w + k)]"
  using assms
proof (induction ps arbitrary: i w k)
  case Nil
  then show ?case by simp
next
  case (Cons p ps)
  let ?w1 = "snd (Then p (Some (AllResolver i c a)) (Some (RejectOf a)) w)"
  have pp: "status (heap w p) = PromisePending" and pn: "p < nextp w" using Cons.prems(2) by simp_all
  have h1: "heap ?w1 = (heap w)(nextp w := fresh,
              p := (heap w p)\<lparr>callbacks := callbacks (heap w p) @ [All_continuation c a i (nextp w)]\<rparr>)"
    using pp pn by (simp add: Then_heap All_continuation_def)
  show ?case
  proof (cases k)
    case 0
    have "heap (All_register (Suc i) ps c a ?w1) p = heap ?w1 p"
      using Cons.prems(1) pn by (intro All_register_untouched) (simp_all add: Then_keeps(1))
    then show ?thesis using 0 pn by (simp add: h1)
  next
    case (Suc k')
    have q: "ps ! k' \<in> set ps" using Cons.prems(3) Suc by simp
    then have ne: "ps ! k' \<noteq> p" "ps ! k' \<noteq> nextp w" using Cons.prems(1,2) by auto
    have pre: "\<forall>q \<in> set ps. q < nextp ?w1 \<and> status (heap ?w1 q) = PromisePending"
      using Cons.prems(1,2) by (auto simp: h1 Then_keeps(1))
    have "callbacks (heap (All_register (Suc i) ps c a ?w1) (ps ! k'))
            = callbacks (heap ?w1 (ps ! k')) @ [All_continuation c a (Suc i + k') (nextp ?w1 + k')]"
      using Cons.prems(1,3) Suc by (intro Cons.IH [OF _ pre]) simp_all
    then show ?thesis using Suc ne by (simp add: h1 Then_keeps(1))
  qed
qed

lemma All_subscribes:
  assumes "All_promises ps w0 = (a, w)" and "distinct ps"
    and "\<forall>p \<in> set ps. p < nextp w0 \<and> status (heap w0 p) = PromisePending" and "i < length ps"
  shows "callbacks (heap w (ps ! i))
           = callbacks (heap w0 (ps ! i)) @ [All_continuation (next_all w0) a i (Suc a + i)]"
proof -
  let ?w1 = "w0\<lparr>heap := (heap w0)(nextp w0 := fresh), nextp := Suc (nextp w0),
                all_frames := (all_frames w0)
                  (next_all w0 := \<lparr>count = length ps, count_success = 0,
                                   results = replicate (length ps) VNil\<rparr>),
                next_all := Suc (next_all w0)\<rparr>"
  have a: "a = nextp w0" and w: "w = All_register 0 ps (next_all w0) (nextp w0) ?w1"
    using assms(1) by (auto simp: All_promises_unfold)
  have pre: "\<forall>p \<in> set ps. p < nextp ?w1 \<and> status (heap ?w1 p) = PromisePending"
    using assms(3) by auto
  have "ps ! i \<in> set ps" using assms(4) by simp
  then have "ps ! i < nextp w0" using assms(3) by blast
  then have "ps ! i \<noteq> nextp w0" by simp
  then show ?thesis
    using All_register_subscribes [OF assms(2) pre assms(4), of 0 "next_all w0" "nextp w0"]
    by (simp add: w a)
qed



section \<open>Any\<close>







text \<open>Which continuation \<^verbatim>\<open>Any\<close> leaves on which input.\<close>

lemma Any_register_untouched:
  "x \<notin> set ps \<Longrightarrow> x < nextp w \<Longrightarrow> heap (Any_register ps c a w) x = heap w x"
proof (induction ps arbitrary: w)
  case Nil
  then show ?case by simp
next
  case (Cons p ps)
  let ?w1 = "snd (Then p (Some (ResolveOf a)) (Some (AnyRejector c a)) w)"
  have "heap ?w1 x = heap w x" using Cons.prems by (simp add: Then_heap)
  moreover have "heap (Any_register ps c a ?w1) x = heap ?w1 x"
    using Cons.prems by (intro Cons.IH) (simp_all add: Then_keeps(1))
  ultimately show ?case by simp
qed

lemma Any_register_subscribes:
  assumes "distinct ps" and "\<forall>p \<in> set ps. p < nextp w \<and> status (heap w p) = PromisePending"
    and "k < length ps"
  shows "callbacks (heap (Any_register ps c a w) (ps ! k))
           = callbacks (heap w (ps ! k)) @ [Any_continuation c a (nextp w + k)]"
  using assms
proof (induction ps arbitrary: w k)
  case Nil
  then show ?case by simp
next
  case (Cons p ps)
  let ?w1 = "snd (Then p (Some (ResolveOf a)) (Some (AnyRejector c a)) w)"
  have pp: "status (heap w p) = PromisePending" and pn: "p < nextp w" using Cons.prems(2) by simp_all
  have h1: "heap ?w1 = (heap w)(nextp w := fresh,
              p := (heap w p)\<lparr>callbacks := callbacks (heap w p) @ [Any_continuation c a (nextp w)]\<rparr>)"
    using pp pn by (simp add: Then_heap Any_continuation_def)
  show ?case
  proof (cases k)
    case 0
    have "heap (Any_register ps c a ?w1) p = heap ?w1 p"
      using Cons.prems(1) pn by (intro Any_register_untouched) (simp_all add: Then_keeps(1))
    then show ?thesis using 0 pn by (simp add: h1)
  next
    case (Suc k')
    have q: "ps ! k' \<in> set ps" using Cons.prems(3) Suc by simp
    then have ne: "ps ! k' \<noteq> p" "ps ! k' \<noteq> nextp w" using Cons.prems(1,2) by auto
    have pre: "\<forall>q \<in> set ps. q < nextp ?w1 \<and> status (heap ?w1 q) = PromisePending"
      using Cons.prems(1,2) by (auto simp: h1 Then_keeps(1))
    have "callbacks (heap (Any_register ps c a ?w1) (ps ! k'))
            = callbacks (heap ?w1 (ps ! k')) @ [Any_continuation c a (nextp ?w1 + k')]"
      using Cons.prems(1,3) Suc by (intro Cons.IH [OF _ pre]) simp_all
    then show ?thesis using Suc ne by (simp add: h1 Then_keeps(1))
  qed
qed

lemma Any_subscribes:
  assumes "Any ps w0 = (a, w)" and "distinct ps"
    and "\<forall>p \<in> set ps. p < nextp w0 \<and> status (heap w0 p) = PromisePending" and "i < length ps"
  shows "callbacks (heap w (ps ! i))
           = callbacks (heap w0 (ps ! i)) @ [Any_continuation (next_any w0) a (Suc a + i)]"
proof -
  let ?w1 = "w0\<lparr>heap := (heap w0)(nextp w0 := fresh), nextp := Suc (nextp w0),
                any_frames := (any_frames w0)
                  (next_any w0 := \<lparr>failures = 0, total = length ps, proms = ps\<rparr>),
                next_any := Suc (next_any w0)\<rparr>"
  have a: "a = nextp w0" and w: "w = Any_register ps (next_any w0) (nextp w0) ?w1"
    using assms(1) by (auto simp: Any_unfold)
  have pre: "\<forall>p \<in> set ps. p < nextp ?w1 \<and> status (heap ?w1 p) = PromisePending"
    using assms(3) by auto
  have "ps ! i \<in> set ps" using assms(4) by simp
  then have "ps ! i < nextp w0" using assms(3) by blast
  then have "ps ! i \<noteq> nextp w0" by simp
  then show ?thesis
    using Any_register_subscribes [OF assms(2) pre assms(4), of "next_any w0" "nextp w0"]
    by (simp add: w a)
qed



section \<open>Resolving with a thenable\<close>

















end
